theory Spec2Isabelle
  imports Main "HOL-Library.Log_Nat" "HOL-Library.AList"
begin

section \<open>Octa: blob cache, read and write pipelines, maintenance worker\<close>

text \<open>
  Go byte slices and Go strings are both byte sequences; they are modelled by
  \<^typ>\<open>string\<close>, so that \<^verbatim>\<open>[]byte(s)\<close> and \<^verbatim>\<open>string(b)\<close> are the identity.
  Instants of \<^verbatim>\<open>time.Time\<close> and durations are integers (nanoseconds).  The
  counters of the program are \<^verbatim>\<open>int64\<close>; they count bytes held in memory or
  on disk and stay far from \<open>2^63\<close>, so they are modelled by \<^typ>\<open>int\<close>.
\<close>

type_synonym bytes = string

subsection \<open>Double precision arithmetic on the thresholds\<close>

text \<open>
  The two thresholds of the program are computed in \<^verbatim>\<open>float64\<close>:
  \<^verbatim>\<open>int64(float64(c.maxSize) * 0.80)\<close> and \<^verbatim>\<open>int64(float64(limitBytes) * 0.85)\<close>.
  A finite double is a pair \<open>(m, e)\<close> standing for \<open>m * 2^e\<close>;
  rounding keeps 53 significant bits, to nearest, ties to even.  Exponent
  overflow and subnormal numbers are out of reach of the sizes handled here.
\<close>

type_synonym f64 = "int \<times> int"

definition f64_round :: "int \<Rightarrow> int \<Rightarrow> f64" where
  "f64_round m e =
     (let a = \<bar>m\<bar>; b = bitlen a in
      if b \<le> 53 then (m, e)
      else let s = nat (b - 53);
               q = a div 2 ^ s;
               r = a mod 2 ^ s;
               h = 2 ^ (s - 1);
               q' = (if h < r \<or> (r = h \<and> odd q) then q + 1 else q)
           in (sgn m * q', e + int s))"

definition f64_of_int :: "int \<Rightarrow> f64" where
  "f64_of_int n = f64_round n 0"

definition f64_mul :: "f64 \<Rightarrow> f64 \<Rightarrow> f64" where
  "f64_mul x y = f64_round (fst x * fst y) (snd x + snd y)"

definition f64_less :: "f64 \<Rightarrow> f64 \<Rightarrow> bool" where
  "f64_less x y =
     (let e = min (snd x) (snd y)
      in fst x * 2 ^ nat (snd x - e) < fst y * 2 ^ nat (snd y - e))"

text \<open>The conversion \<^verbatim>\<open>int64(f)\<close> truncates toward zero.\<close>

definition f64_to_int :: "f64 \<Rightarrow> int" where
  "f64_to_int x =
     (if 0 \<le> snd x then fst x * 2 ^ nat (snd x)
      else sgn (fst x) * (\<bar>fst x\<bar> div 2 ^ nat (- snd x)))"

text \<open>The literals \<^verbatim>\<open>0.80\<close>, \<^verbatim>\<open>0.85\<close> and \<^verbatim>\<open>0.50\<close> as doubles.\<close>

definition f64_0_80 :: f64 where
  "f64_0_80 = (7205759403792794, - 53)"

definition f64_0_85 :: f64 where
  "f64_0_85 = (7656119366529843, - 53)"

definition f64_0_50 :: f64 where
  "f64_0_50 = (1, - 1)"

subsection \<open>The blob cache (pkg/cache/memory.go)\<close>

record Item =
  Data :: bytes
  ExpiresAt :: int
  Size :: int

text \<open>
  The Go map \<^verbatim>\<open>items\<close> is an association list with distinct keys.  The order
  of the list is the order in which \<^verbatim>\<open>range\<close> visits the map, which Go leaves
  unspecified: every statement below holds for every order.  A \<^verbatim>\<open>nil\<close> map
  (the disabled cache) is the empty list.
\<close>

record MemoryCache =
  items :: "(string \<times> Item) list"
  totalSize :: int
  maxSize :: int
  ttl :: int
  enabled :: bool

definition DefaultMaxSize :: int where
  "DefaultMaxSize = 100"

definition DefaultTTL :: int where
  "DefaultTTL = 30 * 60 * 1000000000"

text \<open>
  \<^verbatim>\<open>New\<close> reads the capacity (in MB), the TTL string and the enabled flag from
  the configuration; the TTL arrives here as the result of
  \<^verbatim>\<open>time.ParseDuration\<close>, \<open>None\<close> for a parse error.
\<close>

definition New :: "int \<Rightarrow> int option \<Rightarrow> bool \<Rightarrow> MemoryCache" where
  "New MaxCapacity parsedTTL isEnabled =
     (let limitMB = (if MaxCapacity \<le> 0 then DefaultMaxSize else MaxCapacity)
      in \<lparr>items = [],
          totalSize = 0,
          maxSize = limitMB * 1024 * 1024,
          ttl = (case parsedTTL of None \<Rightarrow> DefaultTTL | Some d \<Rightarrow> d),
          enabled = isEnabled\<rparr>)"

text \<open>Go's integer division truncates toward zero.\<close>

definition go_quot :: "int \<Rightarrow> int \<Rightarrow> int" where
  "go_quot a b = sgn a * sgn b * (\<bar>a\<bar> div \<bar>b\<bar>)"

type_synonym candidate = "string \<times> int \<times> int"

definition cand_Key :: "candidate \<Rightarrow> string" where
  "cand_Key c = fst c"

definition cand_ExpiresAt :: "candidate \<Rightarrow> int" where
  "cand_ExpiresAt c = fst (snd c)"

definition cand_Size :: "candidate \<Rightarrow> int" where
  "cand_Size c = snd (snd c)"

definition targetSize :: "MemoryCache \<Rightarrow> int" where
  "targetSize c = f64_to_int (f64_mul (f64_of_int (maxSize c)) f64_0_80)"

text \<open>
  The candidates of \<^verbatim>\<open>prune\<close>: one triple per entry, collected in range order
  and sorted by \<^verbatim>\<open>ExpiresAt\<close>.  \<^verbatim>\<open>sort.Slice\<close> is not stable; its result is
  some list sorted by expiry, which is what a stable sort returns on a suitable
  range order, and the range order is arbitrary here.
\<close>

definition candidates :: "MemoryCache \<Rightarrow> candidate list" where
  "candidates c =
     sort_key cand_ExpiresAt (map (\<lambda>kv. (fst kv, ExpiresAt (snd kv), Size (snd kv))) (items c))"

text \<open>The eviction loop of \<^verbatim>\<open>prune\<close>, with its \<^verbatim>\<open>break\<close>.\<close>

fun prune_loop :: "int \<Rightarrow> candidate list \<Rightarrow> MemoryCache \<Rightarrow> MemoryCache" where
  "prune_loop t [] c = c"
| "prune_loop t (cand # cs) c =
     (if totalSize c \<le> t then c
      else prune_loop t cs
             (c\<lparr>items := AList.delete (cand_Key cand) (items c),
                totalSize := totalSize c - cand_Size cand\<rparr>))"

definition prune :: "MemoryCache \<Rightarrow> int \<Rightarrow> MemoryCache" where
  "prune c needed =
     (if items c = [] then c
      else prune_loop (targetSize c) (candidates c) c)"

definition mc_Set :: "MemoryCache \<Rightarrow> int \<Rightarrow> string \<Rightarrow> bytes \<Rightarrow> MemoryCache" where
  "mc_Set c now key data =
     (if \<not> enabled c then c
      else let size = int (length data) in
        if go_quot (maxSize c) 2 < size then c
        else if 512 * 1024 < size then c
        else
          let c1 = (if maxSize c < totalSize c + size then prune c size else c);
              c2 = (case map_of (items c1) key of
                      Some oldItem \<Rightarrow> c1\<lparr>totalSize := totalSize c1 - Size oldItem\<rparr>
                    | None \<Rightarrow> c1)
          in c2\<lparr>items := AList.update key
                             \<lparr>Data = data, ExpiresAt = now + ttl c, Size = size\<rparr> (items c2),
                 totalSize := totalSize c2 + size\<rparr>)"

definition mc_Get :: "MemoryCache \<Rightarrow> int \<Rightarrow> string \<Rightarrow> bytes option" where
  "mc_Get c now key =
     (if \<not> enabled c then None
      else case map_of (items c) key of
             None \<Rightarrow> None
           | Some item \<Rightarrow> if ExpiresAt item < now then None else Some (Data item))"

definition mc_Delete :: "MemoryCache \<Rightarrow> string \<Rightarrow> MemoryCache" where
  "mc_Delete c key =
     (if \<not> enabled c then c
      else case map_of (items c) key of
             Some item \<Rightarrow> c\<lparr>items := AList.delete key (items c),
                             totalSize := totalSize c - Size item\<rparr>
           | None \<Rightarrow> c)"

text \<open>One tick of \<^verbatim>\<open>startGC\<close>: the loop over the map deletes what has expired.\<close>

fun gc_loop :: "int \<Rightarrow> (string \<times> Item) list \<Rightarrow> MemoryCache \<Rightarrow> MemoryCache" where
  "gc_loop now [] c = c"
| "gc_loop now (kv # rest) c =
     gc_loop now rest
       (if ExpiresAt (snd kv) < now
        then c\<lparr>items := AList.delete (fst kv) (items c),
               totalSize := totalSize c - Size (snd kv)\<rparr>
        else c)"

definition gc_tick :: "MemoryCache \<Rightarrow> int \<Rightarrow> MemoryCache" where
  "gc_tick c now = (if items c = [] then c else gc_loop now (items c) c)"

text \<open>Sequences of cache operations, each with the clock reading it sees.\<close>

datatype cache_op =
    OpSet int string bytes
  | OpGet int string
  | OpDelete string
  | OpPrune int
  | OpGC int

fun cache_step :: "MemoryCache \<Rightarrow> cache_op \<Rightarrow> MemoryCache" where
  "cache_step c (OpSet now k d) = mc_Set c now k d"
| "cache_step c (OpGet now k) = c"
| "cache_step c (OpDelete k) = mc_Delete c k"
| "cache_step c (OpPrune needed) = prune c needed"
| "cache_step c (OpGC now) = gc_tick c now"

definition cache_run :: "MemoryCache \<Rightarrow> cache_op list \<Rightarrow> MemoryCache" where
  "cache_run c ops = foldl cache_step c ops"

definition sum_sizes :: "(string \<times> Item) list \<Rightarrow> int" where
  "sum_sizes kvs = sum_list (map (\<lambda>kv. Size (snd kv)) kvs)"

definition cache_inv :: "MemoryCache \<Rightarrow> bool" where
  "cache_inv c = (distinct (map fst (items c)) \<and> totalSize c = sum_sizes (items c))"

text \<open>Loop invariants of \<^verbatim>\<open>prune\<close> and of the GC tick: what is still to be visited is in the map.\<close>

definition cands_ok :: "candidate list \<Rightarrow> MemoryCache \<Rightarrow> bool" where
  "cands_ok cs c = (distinct (map cand_Key cs) \<and>
      list_all (\<lambda>cand. case map_of (items c) (cand_Key cand) of None \<Rightarrow> False | Some it \<Rightarrow> Size it = cand_Size cand) cs)"

definition entries_ok :: "(string \<times> Item) list \<Rightarrow> MemoryCache \<Rightarrow> bool" where
  "entries_ok kvs c = (distinct (map fst kvs) \<and>
      list_all (\<lambda>kv. map_of (items c) (fst kv) = Some (snd kv)) kvs)"


section \<open>Proofs\<close>

subsection \<open>The blob cache keeps its size counter exact\<close>


lemma sum_sizes_delete:
  "distinct (map fst kvs) \<Longrightarrow> map_of kvs k = Some it \<Longrightarrow>
   sum_sizes (AList.delete k kvs) = sum_sizes kvs - Size it"
proof (induction kvs)
  case Nil then show ?case by simp
next
  case (Cons a kvs)
  show ?case
  proof (cases "fst a = k")
    case True
    with Cons.prems have "k \<notin> fst ` set kvs" "snd a = it" by auto
    then show ?thesis using True by (cases a) (simp add: sum_sizes_def delete_id)
  next
    case False
    with Cons show ?thesis by (cases a) (simp add: sum_sizes_def)
  qed
qed

lemma delete_absent: "map_of kvs k = None \<Longrightarrow> AList.delete k kvs = kvs"
  by (simp add: delete_id map_of_eq_None_iff)

lemma sum_sizes_update_absent:
  "map_of kvs k = None \<Longrightarrow> sum_sizes (AList.update k v kvs) = sum_sizes kvs + Size v"
  by (induction kvs) (auto simp: sum_sizes_def)

lemma sum_sizes_update_present:
  "distinct (map fst kvs) \<Longrightarrow> map_of kvs k = Some it \<Longrightarrow>
   sum_sizes (AList.update k v kvs) = sum_sizes kvs - Size it + Size v"
  by (induction kvs) (auto simp: sum_sizes_def)

lemma map_of_delete_other:
  "k' \<noteq> k \<Longrightarrow> map_of (AList.delete k kvs) k' = map_of kvs k'"
  by (simp add: AList.delete_conv')

lemma prune_loop_inv:
  "cache_inv c \<Longrightarrow> cands_ok cs c \<Longrightarrow> cache_inv (prune_loop t cs c)"
proof (induction cs arbitrary: c)
  case Nil then show ?case by simp
next
  case (Cons cand cs)
  show ?case
  proof (cases "totalSize c \<le> t")
    case True then show ?thesis using Cons.prems by simp
  next
    case False
    let ?c' = "c\<lparr>items := AList.delete (cand_Key cand) (items c), totalSize := totalSize c - cand_Size cand\<rparr>"
    from Cons.prems(2) obtain it where it: "map_of (items c) (cand_Key cand) = Some it" "Size it = cand_Size cand"
      by (auto simp: cands_ok_def split: option.splits)
    have inv': "cache_inv ?c'"
      using Cons.prems(1) it by (simp add: cache_inv_def sum_sizes_delete distinct_delete)
    have ok': "cands_ok cs ?c'"
      unfolding cands_ok_def list_all_iff
    proof (intro conjI ballI)
      show "distinct (map cand_Key cs)" using Cons.prems(2) by (simp add: cands_ok_def)
    next
      fix x assume x: "x \<in> set cs"
      from Cons.prems(2) have "cand_Key cand \<notin> cand_Key ` set cs"
        by (simp add: cands_ok_def)
      with x have ne: "cand_Key x \<noteq> cand_Key cand"
        by (metis imageI)
      from x Cons.prems(2) have "case map_of (items c) (cand_Key x) of None \<Rightarrow> False | Some it \<Rightarrow> Size it = cand_Size x"
        by (simp add: cands_ok_def list_all_iff)
      then show "case map_of (items ?c') (cand_Key x) of None \<Rightarrow> False | Some it \<Rightarrow> Size it = cand_Size x"
        using ne by (simp add: map_of_delete_other)
    qed
    show ?thesis using False Cons.IH[OF inv' ok'] by simp
  qed
qed

lemma distinct_map_insort_key:
  "distinct (map g (insort_key f x xs)) = (g x \<notin> g ` set xs \<and> distinct (map g xs))"
  by (induction xs) (auto simp: set_insort_key)

lemma distinct_map_sort_key:
  "distinct (map g (sort_key f xs)) = distinct (map g xs)"
  by (induction xs) (simp_all add: distinct_map_insort_key)

lemma cands_ok_candidates:
  assumes "cache_inv c"
  shows "cands_ok (candidates c) c"
proof -
  let ?g = "\<lambda>kv. (fst kv, ExpiresAt (snd kv), Size (snd kv))"
  have d: "distinct (map fst (items c))" using assms by (simp add: cache_inv_def)
  have 1: "distinct (map cand_Key (candidates c))"
    unfolding candidates_def distinct_map_sort_key
    using d by (simp add: cand_Key_def comp_def)
  have 2: "case map_of (items c) (cand_Key x) of None \<Rightarrow> False | Some it \<Rightarrow> Size it = cand_Size x"
    if "x \<in> set (candidates c)" for x
  proof -
    from that obtain kv where kv: "kv \<in> set (items c)" "x = ?g kv"
      by (auto simp: candidates_def)
    then have "map_of (items c) (fst kv) = Some (snd kv)"
      using d map_of_is_SomeI[of "items c" "fst kv" "snd kv"] by simp
    then show ?thesis using kv by (simp add: cand_Key_def cand_Size_def)
  qed
  show ?thesis unfolding cands_ok_def list_all_iff using 1 2 by blast
qed

lemma prune_inv: "cache_inv c \<Longrightarrow> cache_inv (prune c needed)"
  by (simp add: prune_def prune_loop_inv cands_ok_candidates)

lemma mc_Delete_inv: "cache_inv c \<Longrightarrow> cache_inv (mc_Delete c key)"
  by (auto simp: mc_Delete_def cache_inv_def sum_sizes_delete distinct_delete split: option.splits)

lemma set_tail_inv:
  assumes "cache_inv c1"
  shows "cache_inv ((case map_of (items c1) key of
                      Some oldItem \<Rightarrow> c1\<lparr>totalSize := totalSize c1 - Size oldItem\<rparr>
                    | None \<Rightarrow> c1)\<lparr>items := AList.update key it (items (case map_of (items c1) key of
                      Some oldItem \<Rightarrow> c1\<lparr>totalSize := totalSize c1 - Size oldItem\<rparr>
                    | None \<Rightarrow> c1)),
                 totalSize := totalSize (case map_of (items c1) key of
                      Some oldItem \<Rightarrow> c1\<lparr>totalSize := totalSize c1 - Size oldItem\<rparr>
                    | None \<Rightarrow> c1) + Size it\<rparr>)"
  using assms
  by (auto simp: cache_inv_def distinct_update sum_sizes_update_absent sum_sizes_update_present
           split: option.splits)

lemma mc_Set_inv: "cache_inv c \<Longrightarrow> cache_inv (mc_Set c now key data)"
  using set_tail_inv[of "prune c (int (length data))" key "\<lparr>Data = data, ExpiresAt = now + ttl c, Size = int (length data)\<rparr>"]
        set_tail_inv[of c key "\<lparr>Data = data, ExpiresAt = now + ttl c, Size = int (length data)\<rparr>"]
  by (simp add: mc_Set_def Let_def prune_inv)

lemma gc_loop_inv:
  "cache_inv c \<Longrightarrow> entries_ok kvs c \<Longrightarrow> cache_inv (gc_loop now kvs c)"
proof (induction kvs arbitrary: c)
  case Nil then show ?case by simp
next
  case (Cons kv kvs)
  let ?c' = "(if ExpiresAt (snd kv) < now
        then c\<lparr>items := AList.delete (fst kv) (items c),
               totalSize := totalSize c - Size (snd kv)\<rparr>
        else c)"
  from Cons.prems(2) have it: "map_of (items c) (fst kv) = Some (snd kv)"
    and nin: "fst kv \<notin> fst ` set kvs" and rest: "entries_ok kvs c"
    by (auto simp: entries_ok_def)
  from Cons.prems(1) have d: "distinct (map fst (items c))"
    by (simp add: cache_inv_def)
  have inv': "cache_inv ?c'"
    using Cons.prems(1) sum_sizes_delete[OF d it] by (simp add: cache_inv_def distinct_delete)
  have ok': "entries_ok kvs ?c'"
    unfolding entries_ok_def list_all_iff
  proof (intro conjI ballI)
    show "distinct (map fst kvs)" using rest by (simp add: entries_ok_def)
  next
    fix x assume x: "x \<in> set kvs"
    with nin have ne: "fst x \<noteq> fst kv" by (metis imageI)
    from x rest have "map_of (items c) (fst x) = Some (snd x)"
      by (simp add: entries_ok_def list_all_iff)
    then show "map_of (items ?c') (fst x) = Some (snd x)" using ne by simp
  qed
  show ?case using Cons.IH[OF inv' ok'] by simp
qed

lemma entries_ok_items: "cache_inv c \<Longrightarrow> entries_ok (items c) c"
  by (auto simp: entries_ok_def cache_inv_def list_all_iff)

lemma gc_tick_inv: "cache_inv c \<Longrightarrow> cache_inv (gc_tick c now)"
  by (simp add: gc_tick_def gc_loop_inv entries_ok_items)

lemma cache_step_inv: "cache_inv c \<Longrightarrow> cache_inv (cache_step c op)"
  by (cases op) (simp_all add: mc_Set_inv mc_Delete_inv prune_inv gc_tick_inv)

lemma cache_run_inv: "cache_inv c \<Longrightarrow> cache_inv (cache_run c ops)"
  unfolding cache_run_def
  by (induction ops arbitrary: c) (simp_all add: cache_step_inv)

lemma New_inv: "cache_inv (New cap t en)"
  by (simp add: New_def cache_inv_def sum_sizes_def Let_def)

lemma disabled_cache_noop:
  "\<not> enabled c \<Longrightarrow> items c = [] \<Longrightarrow> cache_run c ops = c"
  unfolding cache_run_def
proof (induction ops)
  case Nil then show ?case by simp
next
  case (Cons op ops)
  have "cache_step c op = c" using Cons.prems
    by (cases op) (simp_all add: mc_Set_def mc_Delete_def prune_def gc_tick_def)
  then show ?case using Cons by simp
qed

text \<open>
  Claim C5.  Whatever sequence of \<^verbatim>\<open>Set\<close>, \<^verbatim>\<open>Get\<close>, \<^verbatim>\<open>Delete\<close>, \<^verbatim>\<open>prune\<close> and
  GC ticks runs on a cache whose counter is exact, the counter is exact
  afterwards: \<^verbatim>\<open>totalSize\<close> is the sum of the sizes of the stored entries.
  The cache built by \<^verbatim>\<open>New\<close> is such a cache (lemma \<open>New_inv\<close>), and on a
  disabled cache every operation leaves the state as it is (lemma
  \<open>disabled_cache_noop\<close>).
\<close>

theorem blob_cache_total_size_invariant:
  "cache_inv c \<Longrightarrow>
     totalSize (cache_run c ops) = sum_sizes (items (cache_run c ops))"
  using cache_run_inv[of c ops] by (simp add: cache_inv_def)

theorem blob_cache_total_size_invariant_witness:
  "cache_inv \<lparr>items = [], totalSize = 0, maxSize = 10, ttl = 5, enabled = True\<rparr> \<and>
   totalSize (cache_run \<lparr>items = [], totalSize = 0, maxSize = 10, ttl = 5, enabled = True\<rparr>
     [OpSet 0 ''a'' ''aaaaa'', OpSet 1 ''b'' ''bbbbb'', OpGet 2 ''a'',
      OpSet 3 ''c'' ''ccccc'', OpSet 4 ''b'' ''bb'']) = 7 \<and>
   sum_sizes (items (cache_run \<lparr>items = [], totalSize = 0, maxSize = 10, ttl = 5, enabled = True\<rparr>
     [OpSet 0 ''a'' ''aaaaa'', OpSet 1 ''b'' ''bbbbb'', OpGet 2 ''a'',
      OpSet 3 ''c'' ''ccccc'', OpSet 4 ''b'' ''bb''])) = 7"
proof -
  let ?c = "\<lparr>items = [], totalSize = 0, maxSize = 10, ttl = 5, enabled = True\<rparr>"
  let ?ops = "[OpSet 0 ''a'' ''aaaaa'', OpSet 1 ''b'' ''bbbbb'', OpGet 2 ''a'',
      OpSet 3 ''c'' ''ccccc'', OpSet 4 ''b'' ''bb'']"
  have inv: "cache_inv ?c" by (simp add: cache_inv_def sum_sizes_def)
  have t: "totalSize (cache_run ?c ?ops) = 7" by code_simp
  from blob_cache_total_size_invariant[OF inv, of ?ops] inv t show ?thesis by simp
qed

end
